theory Spec2Isabelle
  imports Main
begin

section \<open>The JSON writer of \<^verbatim>\<open>json_writer.h\<close>\<close>

text \<open>
  The class \<^verbatim>\<open>json_writer\<close> wraps an output stream and three fields. The stream is
  modelled by the bytes written to it so far (a \<open>string\<close>: a list of 8-bit characters,
  as C++ \<^verbatim>\<open>char\<close>), in its default formatting state (fill character space, decimal
  numbers, no failure). The \<^verbatim>\<open>int\<close> fields are mathematical integers: signed overflow
  is undefined behaviour in C++ and is outside the model. The members \<^verbatim>\<open>sout_\<close>,
  \<^verbatim>\<open>indent_\<close>, \<^verbatim>\<open>level_\<close> and \<^verbatim>\<open>sep_status_\<close> are the fields \<open>sout_m\<close>, \<open>indent_m\<close>,
  \<open>level_m\<close> and \<open>sep_status_m\<close>.
\<close>

subsection \<open>Data model\<close>

datatype SepStatus = SepStatus_none | SepStatus_first | SepStatus_next

record json_writer =
  sout_m :: string
  indent_m :: int
  level_m :: int
  sep_status_m :: SepStatus

definition cObjStart :: char where "cObjStart = CHR ''{''"
definition cObjEnd :: char where "cObjEnd = CHR ''}''"
definition cArrStart :: char where "cArrStart = CHR ''[''"
definition cArrEnd :: char where "cArrEnd = CHR '']''"
definition sNameSep :: string where "sNameSep = '': ''"
definition cValueSep :: char where "cValueSep = CHR '',''"

definition cQuote :: char where "cQuote = CHR 0x22"
definition cBackslash :: char where "cBackslash = CHR 0x5C"
definition sUnicodeEsc :: string where "sUnicodeEsc = [CHR 0x5C, CHR ''u'', CHR ''0'', CHR ''0'']"

definition sHex :: string where "sHex = ''0123456789abcdef''"

text \<open>\<^verbatim>\<open>num_to_hex\<close> reads the table without a bounds check; its two callers pass a
  value masked with \<^verbatim>\<open>0xF\<close>.\<close>

definition num_to_hex :: "int \<Rightarrow> char" where
  "num_to_hex n = sHex ! nat n"

text \<open>The constructor: the sink as it is handed over, level 0, status \<^verbatim>\<open>none\<close>.\<close>

definition json_writer_init :: "string \<Rightarrow> int \<Rightarrow> json_writer" where
  "json_writer_init sout ind =
     \<lparr>sout_m = sout, indent_m = ind, level_m = 0, sep_status_m = SepStatus_none\<rparr>"

subsection \<open>Indentation and separators\<close>

text \<open>\<^verbatim>\<open>sout_ << '\n' << std::setw(level_ * indent_) << ""\<close>: the empty string is padded
  with the fill character to the width; a width that is not positive pads nothing.\<close>

definition indent :: "json_writer \<Rightarrow> json_writer" where
  "indent w =
     (if indent_m w \<noteq> 0 \<and> sep_status_m w \<noteq> SepStatus_none
      then w\<lparr>sout_m := sout_m w @ [CHR 0x0A] @ replicate (nat (level_m w * indent_m w)) CHR '' ''\<rparr>
      else w)"

definition value_sep :: "json_writer \<Rightarrow> json_writer" where
  "value_sep w =
     indent (if sep_status_m w = SepStatus_next
             then w\<lparr>sout_m := sout_m w @ [cValueSep]\<rparr>
             else w)"

subsection \<open>String escaping\<close>

text \<open>The \<^verbatim>\<open>switch\<close> on a control byte, \<open>c\<close> being the byte as an unsigned value.\<close>

definition control_escape :: "int \<Rightarrow> string" where
  "control_escape c =
     (if c = 8 then [cBackslash, CHR ''b'']
      else if c = 12 then [cBackslash, CHR ''f'']
      else if c = 10 then [cBackslash, CHR ''n'']
      else if c = 13 then [cBackslash, CHR ''r'']
      else if c = 9 then [cBackslash, CHR ''t'']
      else sUnicodeEsc @ [num_to_hex (and (drop_bit 4 c) 0xF), num_to_hex (and c 0xF)])"

text \<open>One iteration of the \<^verbatim>\<open>for\<close> loop. Pointers are offsets into the range
  \<open>buf\<close> (\<^verbatim>\<open>first\<close> is 0, \<^verbatim>\<open>last\<close> is \<open>length buf\<close>); the state is the run start and the
  stream; \<^verbatim>\<open>sout_.write(start, ps - start)\<close> copies the pending run.\<close>

definition write_string_body :: "string \<Rightarrow> nat \<Rightarrow> nat \<times> string \<Rightarrow> nat \<times> string" where
  "write_string_body buf ps st =
     (case st of (start, out) \<Rightarrow>
        let c = (of_char (buf ! ps) :: int) in
        if c = of_char cQuote \<or> c = of_char cBackslash
        then (ps + 1, out @ take (ps - start) (drop start buf) @ [cBackslash] @ [char_of c])
        else if c \<le> 31 \<or> c = 127
        then (ps + 1, out @ take (ps - start) (drop start buf) @ control_escape c)
        else (start, out))"

definition write_string :: "string \<Rightarrow> json_writer \<Rightarrow> json_writer" where
  "write_string buf w =
     (case fold (write_string_body buf) [0..<length buf] (0, sout_m w @ [cQuote]) of
        (start, out) \<Rightarrow>
          w\<lparr>sout_m :=
              (if start \<noteq> length buf
               then out @ take (length buf - start) (drop start buf)
               else out) @ [cQuote]\<rparr>)"

subsection \<open>Containers, names and values\<close>

definition array_start :: "json_writer \<Rightarrow> json_writer" where
  "array_start w =
     (let w1 = value_sep w;
          w2 = w1\<lparr>sout_m := sout_m w1 @ [cArrStart]\<rparr>;
          w3 = w2\<lparr>sep_status_m := SepStatus_first\<rparr>
      in w3\<lparr>level_m := level_m w3 + 1\<rparr>)"

definition array_end :: "json_writer \<Rightarrow> json_writer" where
  "array_end w =
     (let w1 = w\<lparr>level_m := level_m w - 1\<rparr>;
          w2 = indent w1;
          w3 = w2\<lparr>sout_m := sout_m w2 @ [cArrEnd]\<rparr>
      in w3\<lparr>sep_status_m := SepStatus_next\<rparr>)"

definition object_start :: "json_writer \<Rightarrow> json_writer" where
  "object_start w =
     (let w1 = value_sep w;
          w2 = w1\<lparr>sout_m := sout_m w1 @ [cObjStart]\<rparr>;
          w3 = w2\<lparr>sep_status_m := SepStatus_first\<rparr>
      in w3\<lparr>level_m := level_m w3 + 1\<rparr>)"

definition object_end :: "json_writer \<Rightarrow> json_writer" where
  "object_end w =
     (let w1 = w\<lparr>level_m := level_m w - 1\<rparr>;
          w2 = indent w1;
          w3 = w2\<lparr>sout_m := sout_m w2 @ [cObjEnd]\<rparr>
      in w3\<lparr>sep_status_m := SepStatus_next\<rparr>)"

text \<open>\<^verbatim>\<open>name(first, last)\<close>; \<^verbatim>\<open>sout_.write(sNameSep, indent_ ? 2 : 1)\<close> writes the first
  two characters or the first one.\<close>

definition name :: "string \<Rightarrow> json_writer \<Rightarrow> json_writer" where
  "name buf w =
     (let w1 = value_sep w;
          w2 = write_string buf w1;
          w3 = w2\<lparr>sout_m := sout_m w2 @ take (if indent_m w2 \<noteq> 0 then 2 else 1) sNameSep\<rparr>
      in w3\<lparr>sep_status_m := SepStatus_none\<rparr>)"

text \<open>\<^verbatim>\<open>value(first, last)\<close>.\<close>

definition value_range :: "string \<Rightarrow> json_writer \<Rightarrow> json_writer" where
  "value_range buf w =
     (let w1 = value_sep w;
          w2 = write_string buf w1
      in w2\<lparr>sep_status_m := SepStatus_next\<rparr>)"

definition value_bool :: "bool \<Rightarrow> json_writer \<Rightarrow> json_writer" where
  "value_bool b w =
     (let w1 = value_sep w;
          w2 = w1\<lparr>sout_m := sout_m w1 @ (if b then ''true'' else ''false'')\<rparr>
      in w2\<lparr>sep_status_m := SepStatus_next\<rparr>)"

definition value_null :: "json_writer \<Rightarrow> json_writer" where
  "value_null w =
     (let w1 = value_sep w;
          w2 = w1\<lparr>sout_m := sout_m w1 @ ''null''\<rparr>
      in w2\<lparr>sep_status_m := SepStatus_next\<rparr>)"

text \<open>The stream's insertion of an integer (\<^verbatim>\<open>sout_ << n\<close>) belongs to the standard
  library. For the integral types that are not character types it writes a number: decimal
  digits, no leading zero, a minus sign for a negative number. For \<^verbatim>\<open>char\<close>,
  \<^verbatim>\<open>signed char\<close> and \<^verbatim>\<open>unsigned char\<close> it writes the character itself.\<close>

fun dec_digits :: "nat \<Rightarrow> string" where
  "dec_digits n =
     (if n < 10 then [''0123456789'' ! n]
      else dec_digits (n div 10) @ [''0123456789'' ! (n mod 10)])"

declare dec_digits.simps [simp del]

definition ostream_int :: "int \<Rightarrow> string" where
  "ostream_int n = (if n < 0 then CHR ''-'' # dec_digits (nat (- n)) else dec_digits (nat n))"

text \<open>The template \<^verbatim>\<open>value(T n)\<close>, which \<^verbatim>\<open>std::is_integral\<close> enables for every
  integral type and the header lists under the comment \<^verbatim>\<open>// numbers\<close>. \<open>value_int\<close> is
  the template at \<^verbatim>\<open>int\<close> and the other types written as numbers (\<open>n\<close> being the
  value), \<open>value_char\<close> the template at the three character types.\<close>

definition value_int :: "int \<Rightarrow> json_writer \<Rightarrow> json_writer" where
  "value_int n w =
     (let w1 = value_sep w;
          w2 = w1\<lparr>sout_m := sout_m w1 @ ostream_int n\<rparr>
      in w2\<lparr>sep_status_m := SepStatus_next\<rparr>)"

definition value_char :: "char \<Rightarrow> json_writer \<Rightarrow> json_writer" where
  "value_char ch w =
     (let w1 = value_sep w;
          w2 = w1\<lparr>sout_m := sout_m w1 @ [ch]\<rparr>
      in w2\<lparr>sep_status_m := SepStatus_next\<rparr>)"

text \<open>\<^verbatim>\<open>std::strlen\<close> on the bytes that start at a pointer: the offset of the first
  zero byte, and no result when the bytes hold none (the call then reads past them).\<close>

fun strlen :: "string \<Rightarrow> nat option" where
  "strlen [] = None"
| "strlen (c # cs) = (if c = CHR 0x00 then Some 0 else map_option Suc (strlen cs))"

text \<open>\<^verbatim>\<open>name(const char* strz)\<close> and \<^verbatim>\<open>value(const char* strz)\<close>: the range from
  \<^verbatim>\<open>strz\<close> to \<^verbatim>\<open>strz + strlen(strz)\<close>.\<close>

definition name_strz :: "string \<Rightarrow> json_writer \<Rightarrow> json_writer option" where
  "name_strz strz w =
     (case strlen strz of None \<Rightarrow> None | Some n \<Rightarrow> Some (name (take n strz) w))"

definition value_strz :: "string \<Rightarrow> json_writer \<Rightarrow> json_writer option" where
  "value_strz strz w =
     (case strlen strz of None \<Rightarrow> None | Some n \<Rightarrow> Some (value_range (take n strz) w))"

text \<open>The templates for a string class: \<open>data_m\<close> holds the bytes at \<^verbatim>\<open>str.data()\<close>
  and \<open>size_m\<close> is \<^verbatim>\<open>str.size()\<close>; the range passed on is \<^verbatim>\<open>data()\<close> to
  \<^verbatim>\<open>data() + size()\<close>.\<close>

record StringT =
  data_m :: string
  size_m :: nat

definition name_StringT :: "StringT \<Rightarrow> json_writer \<Rightarrow> json_writer" where
  "name_StringT str w = name (take (size_m str) (data_m str)) w"

definition value_StringT :: "StringT \<Rightarrow> json_writer \<Rightarrow> json_writer" where
  "value_StringT str w = value_range (take (size_m str) (data_m str)) w"

subsection \<open>Derived notions: what one byte contributes, the literal of a range\<close>

text \<open>The bytes that the loop of \<^verbatim>\<open>write_string\<close> puts on the stream for one input byte,
  whether at once (an escape) or later with its run (the byte itself).\<close>

definition emit_byte :: "char \<Rightarrow> string" where
  "emit_byte ch =
     (let c = (of_char ch :: int) in
      if c = of_char cQuote \<or> c = of_char cBackslash then [cBackslash, char_of c]
      else if c \<le> 31 \<or> c = 127 then control_escape c
      else [ch])"

text \<open>The literal that \<^verbatim>\<open>write_string\<close> writes for a range: its output on an empty
  stream.\<close>

definition quoted :: "string \<Rightarrow> string" where
  "quoted buf = sout_m (write_string buf (json_writer_init [] 0))"

subsection \<open>Sequences of calls\<close>

datatype call =
    ArrayStart | ArrayEnd | ObjectStart | ObjectEnd
  | Name string | ValueString string | ValueInt int | ValueChar char | ValueBool bool
  | ValueNull

fun exec :: "call \<Rightarrow> json_writer \<Rightarrow> json_writer" where
  "exec ArrayStart w = array_start w"
| "exec ArrayEnd w = array_end w"
| "exec ObjectStart w = object_start w"
| "exec ObjectEnd w = object_end w"
| "exec (Name buf) w = name buf w"
| "exec (ValueString buf) w = value_range buf w"
| "exec (ValueInt n) w = value_int n w"
| "exec (ValueChar ch) w = value_char ch w"
| "exec (ValueBool b) w = value_bool b w"
| "exec ValueNull w = value_null w"

fun run :: "call list \<Rightarrow> json_writer \<Rightarrow> json_writer" where
  "run [] w = w"
| "run (c # cs) w = run cs (exec c w)"

fun is_start :: "call \<Rightarrow> bool" where
  "is_start ArrayStart = True"
| "is_start ObjectStart = True"
| "is_start _ = False"

fun is_end :: "call \<Rightarrow> bool" where
  "is_end ArrayEnd = True"
| "is_end ObjectEnd = True"
| "is_end _ = False"

fun is_name :: "call \<Rightarrow> bool" where
  "is_name (Name _) = True"
| "is_name _ = False"

definition is_container_call :: "call \<Rightarrow> bool" where
  "is_container_call c = (is_start c \<or> is_end c)"

text \<open>A call that completes an element: a scalar value or the end of a container.\<close>

definition completes_element :: "call \<Rightarrow> bool" where
  "completes_element c = (\<not> is_start c \<and> \<not> is_name c)"

text \<open>Balanced calls: every end call closes the innermost open container, which is of
  its kind, and no container stays open.\<close>

datatype container = Array | Object

fun balanced_from :: "container list \<Rightarrow> call list \<Rightarrow> bool" where
  "balanced_from st [] = (st = [])"
| "balanced_from st (ArrayStart # cs) = balanced_from (Array # st) cs"
| "balanced_from st (ObjectStart # cs) = balanced_from (Object # st) cs"
| "balanced_from st (ArrayEnd # cs) =
     (case st of Array # st' \<Rightarrow> balanced_from st' cs | _ \<Rightarrow> False)"
| "balanced_from st (ObjectEnd # cs) =
     (case st of Object # st' \<Rightarrow> balanced_from st' cs | _ \<Rightarrow> False)"
| "balanced_from st (_ # cs) = balanced_from st cs"

definition balanced :: "call list \<Rightarrow> bool" where
  "balanced cs = balanced_from [] cs"

text \<open>The nesting depth after a sequence of calls: containers opened minus containers
  closed.\<close>

fun depth_change :: "call \<Rightarrow> int" where
  "depth_change c = (if is_start c then 1 else if is_end c then - 1 else 0)"

definition depth :: "call list \<Rightarrow> int" where
  "depth cs = sum_list (map depth_change cs)"

text \<open>The token of a call: its own text, after the separator and the indentation.\<close>

fun token :: "int \<Rightarrow> call \<Rightarrow> string" where
  "token N ArrayStart = [cArrStart]"
| "token N ArrayEnd = [cArrEnd]"
| "token N ObjectStart = [cObjStart]"
| "token N ObjectEnd = [cObjEnd]"
| "token N (Name buf) = quoted buf @ take (if N \<noteq> 0 then 2 else 1) sNameSep"
| "token N (ValueString buf) = quoted buf"
| "token N (ValueInt n) = ostream_int n"
| "token N (ValueChar ch) = [ch]"
| "token N (ValueBool b) = (if b then ''true'' else ''false'')"
| "token N ValueNull = ''null''"

text \<open>What \<^verbatim>\<open>indent\<close> writes in a state, and what a call writes before its token:
  \<^verbatim>\<open>value_sep\<close> for every call but the end calls, which lower the level and call
  \<^verbatim>\<open>indent\<close>.\<close>

definition indent_text :: "json_writer \<Rightarrow> string" where
  "indent_text w =
     (if indent_m w \<noteq> 0 \<and> sep_status_m w \<noteq> SepStatus_none
      then CHR 0x0A # replicate (nat (level_m w * indent_m w)) CHR '' '' else [])"

definition prefix_text :: "call \<Rightarrow> json_writer \<Rightarrow> string" where
  "prefix_text c w =
     (if is_end c then indent_text (w\<lparr>level_m := level_m w - 1\<rparr>)
      else (if sep_status_m w = SepStatus_next then [cValueSep] else []) @ indent_text w)"

definition status_after :: "call \<Rightarrow> SepStatus" where
  "status_after c =
     (if is_start c then SepStatus_first
      else if is_name c then SepStatus_none
      else SepStatus_next)"

text \<open>The calls whose token holds no newline and does not start with a space: all but a
  value of a character type that is a newline or a space.\<close>

fun writes_no_layout_char :: "call \<Rightarrow> bool" where
  "writes_no_layout_char (ValueChar ch) = (ch \<noteq> CHR 0x0A \<and> ch \<noteq> CHR '' '')"
| "writes_no_layout_char _ = True"

subsection \<open>Lines of the output\<close>

fun split_lines :: "string \<Rightarrow> string list" where
  "split_lines [] = [[]]"
| "split_lines (c # cs) =
     (if c = CHR 0x0A then [] # split_lines cs
      else (c # hd (split_lines cs)) # tl (split_lines cs))"

definition leading_spaces :: "string \<Rightarrow> nat" where
  "leading_spaces l = length (takeWhile (\<lambda>c. c = CHR '' '') l)"

text \<open>The depth of the first token of every line, from the calls alone. The first token
  of the output and a token that follows a name stay on the current line; every other
  token starts a line. A token sits at the depth of its container: for a closing
  delimiter, the depth outside the container it closes. \<open>d\<close> is the depth before the
  call, \<open>same_line\<close> whether the next token stays on the line.\<close>

fun line_depths_from :: "int \<Rightarrow> bool \<Rightarrow> call list \<Rightarrow> int list" where
  "line_depths_from d same_line [] = []"
| "line_depths_from d same_line (c # cs) =
     (if same_line then [] else [if is_end c then d - 1 else d])
       @ line_depths_from (d + depth_change c) (is_name c) cs"

definition line_depths :: "call list \<Rightarrow> int list" where
  "line_depths cs = 0 # line_depths_from 0 True cs"

subsection \<open>The escapes in the words of the specification\<close>

definition hex_digit :: "nat \<Rightarrow> char" where
  "hex_digit d = (if d < 10 then char_of (48 + d) else char_of (87 + d))"

definition escape_byte_spec :: "char \<Rightarrow> string" where
  "escape_byte_spec ch =
     (let v = (of_char ch :: nat) in
      if ch = CHR 0x22 \<or> ch = CHR 0x5C then [CHR 0x5C, ch]
      else if v = 8 then [CHR 0x5C, CHR ''b'']
      else if v = 12 then [CHR 0x5C, CHR ''f'']
      else if v = 10 then [CHR 0x5C, CHR ''n'']
      else if v = 13 then [CHR 0x5C, CHR ''r'']
      else if v = 9 then [CHR 0x5C, CHR ''t'']
      else if v \<le> 31 \<or> v = 127
      then [CHR 0x5C, CHR ''u'', CHR ''0'', CHR ''0'', hex_digit (v div 16), hex_digit (v mod 16)]
      else [ch])"

subsection \<open>A decoder of string literals\<close>

text \<open>The decoder is not part of the repository. It follows the grammar of strings in
  RFC 8259, section 7, on bytes: a literal is a quotation mark, characters and a
  quotation mark; a character is an unescaped byte (neither a quotation mark, nor a
  reverse solidus, nor below \<open>0x20\<close>) or an escape; \<^verbatim>\<open>\uXXXX\<close> takes four hexadecimal
  digits of either case, a surrogate pair taking two escapes, and stands for the UTF-8
  bytes of its code point. Bytes from \<open>0x80\<close> on are taken as they are.\<close>

definition hex_value :: "char \<Rightarrow> nat option" where
  "hex_value c =
     (let v = (of_char c :: nat) in
      if 48 \<le> v \<and> v \<le> 57 then Some (v - 48)
      else if 97 \<le> v \<and> v \<le> 102 then Some (v - 87)
      else if 65 \<le> v \<and> v \<le> 70 then Some (v - 55)
      else None)"

definition hex4 :: "char \<Rightarrow> char \<Rightarrow> char \<Rightarrow> char \<Rightarrow> nat option" where
  "hex4 h1 h2 h3 h4 =
     (case (hex_value h1, hex_value h2, hex_value h3, hex_value h4) of
        (Some a, Some b, Some c, Some d) \<Rightarrow> Some (((a * 16 + b) * 16 + c) * 16 + d)
      | _ \<Rightarrow> None)"

definition utf8_encode :: "nat \<Rightarrow> string" where
  "utf8_encode cp =
     (if cp < 0x80 then [char_of cp]
      else if cp < 0x800 then [char_of (0xC0 + cp div 64), char_of (0x80 + cp mod 64)]
      else if cp < 0x10000
      then [char_of (0xE0 + cp div 4096), char_of (0x80 + cp div 64 mod 64),
            char_of (0x80 + cp mod 64)]
      else [char_of (0xF0 + cp div 262144), char_of (0x80 + cp div 4096 mod 64),
            char_of (0x80 + cp div 64 mod 64), char_of (0x80 + cp mod 64)])"

text \<open>The text after \<^verbatim>\<open>\u\<close>: the bytes of the code point and the text that is left.\<close>

definition unicode_escape :: "string \<Rightarrow> (string \<times> string) option" where
  "unicode_escape r =
     (case r of
        h1 # h2 # h3 # h4 # r1 \<Rightarrow>
          (case hex4 h1 h2 h3 h4 of
             None \<Rightarrow> None
           | Some cp \<Rightarrow>
               if cp < 0xD800 \<or> 0xE000 \<le> cp then Some (utf8_encode cp, r1)
               else if 0xDC00 \<le> cp then None
               else
                 (case r1 of
                    b # u # l1 # l2 # l3 # l4 # r2 \<Rightarrow>
                      if b = CHR 0x5C \<and> u = CHR ''u''
                      then
                        (case hex4 l1 l2 l3 l4 of
                           None \<Rightarrow> None
                         | Some lo \<Rightarrow>
                             if 0xDC00 \<le> lo \<and> lo < 0xE000
                             then Some (utf8_encode
                                          (0x10000 + (cp - 0xD800) * 0x400 + (lo - 0xDC00)), r2)
                             else None)
                      else None
                  | _ \<Rightarrow> None))
      | _ \<Rightarrow> None)"

function json_unescape :: "string \<Rightarrow> string option" where
  "json_unescape [] = None"
| "json_unescape (c # cs) =
     (if c = CHR 0x22 then (if cs = [] then Some [] else None)
      else if c = CHR 0x5C then
        (case cs of
           [] \<Rightarrow> None
         | e # r \<Rightarrow>
             if e = CHR 0x22 then map_option ((#) (CHR 0x22)) (json_unescape r)
             else if e = CHR 0x5C then map_option ((#) (CHR 0x5C)) (json_unescape r)
             else if e = CHR ''/'' then map_option ((#) (CHR ''/'')) (json_unescape r)
             else if e = CHR ''b'' then map_option ((#) (CHR 0x08)) (json_unescape r)
             else if e = CHR ''f'' then map_option ((#) (CHR 0x0C)) (json_unescape r)
             else if e = CHR ''n'' then map_option ((#) (CHR 0x0A)) (json_unescape r)
             else if e = CHR ''r'' then map_option ((#) (CHR 0x0D)) (json_unescape r)
             else if e = CHR ''t'' then map_option ((#) (CHR 0x09)) (json_unescape r)
             else if e = CHR ''u'' then
               (case unicode_escape r of
                  None \<Rightarrow> None
                | Some (bs, r') \<Rightarrow> map_option ((@) bs) (json_unescape r'))
             else None)
      else if (of_char c :: nat) < 0x20 then None
      else map_option ((#) c) (json_unescape cs))"
  by pat_completeness auto
termination
proof (relation "measure length")
  show "wf (measure length)" by simp
next
  fix c cs e r x2 bs r'
  assume "unicode_escape r = Some x2" "(bs, r') = x2" "cs = e # r"
  then have "length r' < length r"
    by (auto simp: unicode_escape_def split: list.splits option.splits if_splits)
  then show "(r', c # cs) \<in> measure length" using \<open>cs = e # r\<close> by simp
qed auto

definition json_decode_string :: "string \<Rightarrow> string option" where
  "json_decode_string s =
     (case s of [] \<Rightarrow> None | q # body \<Rightarrow> if q = CHR 0x22 then json_unescape body else None)"

section \<open>The escaping routine\<close>

subsection \<open>The loop of \<^verbatim>\<open>write_string\<close>, byte by byte\<close>

lemma take_run_snoc:
  assumes "start \<le> k" "k < length buf"
  shows "take (Suc k - start) (drop start buf) = take (k - start) (drop start buf) @ [buf ! k]"
proof -
  have "k - start < length (drop start buf)" using assms by simp
  then have "take (Suc (k - start)) (drop start buf)
      = take (k - start) (drop start buf) @ [drop start buf ! (k - start)]"
    by (rule take_Suc_conv_app_nth)
  moreover have "Suc k - start = Suc (k - start)" using assms by simp
  moreover have "drop start buf ! (k - start) = buf ! k" using assms by simp
  ultimately show ?thesis by simp
qed

lemma write_string_fold:
  "k \<le> length buf \<Longrightarrow>
   fold (write_string_body buf) [0..<k] (0, out0) = (start, out) \<Longrightarrow>
   start \<le> k \<and> out @ take (k - start) (drop start buf) = out0 @ concat (map emit_byte (take k buf))"
proof (induction k arbitrary: start out)
  case 0
  then show ?case by simp
next
  case (Suc k)
  obtain s1 o1 where st: "fold (write_string_body buf) [0..<k] (0, out0) = (s1, o1)"
    by (cases "fold (write_string_body buf) [0..<k] (0, out0)")
  from Suc.prems have klt: "k < length buf" by simp
  from Suc.IH [OF _ st] klt
  have le: "s1 \<le> k"
    and inv: "o1 @ take (k - s1) (drop s1 buf) = out0 @ concat (map emit_byte (take k buf))"
    by simp_all
  have step: "write_string_body buf k (s1, o1) = (start, out)"
    using Suc.prems(2) st by simp
  have tk: "take (Suc k) buf = take k buf @ [buf ! k]"
    using klt by (rule take_Suc_conv_app_nth)
  show ?case
  proof (cases "of_char (buf ! k) = (of_char cQuote :: int) \<or> of_char (buf ! k) = (of_char cBackslash :: int)")
    case True
    with step have "start = Suc k"
      and "out = o1 @ take (k - s1) (drop s1 buf) @ [cBackslash] @ [char_of (of_char (buf ! k) :: int)]"
      by (auto simp: write_string_body_def Let_def)
    moreover have "emit_byte (buf ! k) = [cBackslash, char_of (of_char (buf ! k) :: int)]"
      using True by (simp add: emit_byte_def Let_def)
    ultimately show ?thesis using inv tk by simp
  next
    case nq: False
    show ?thesis
    proof (cases "of_char (buf ! k) \<le> (31 :: int) \<or> of_char (buf ! k) = (127 :: int)")
      case True
      with nq step have "start = Suc k"
        and "out = o1 @ take (k - s1) (drop s1 buf) @ control_escape (of_char (buf ! k))"
        by (auto simp: write_string_body_def Let_def)
      moreover have "emit_byte (buf ! k) = control_escape (of_char (buf ! k))"
        using True nq by (simp add: emit_byte_def Let_def)
      ultimately show ?thesis using inv tk by simp
    next
      case False
      with nq step have eq: "start = s1" "out = o1"
        by (auto simp: write_string_body_def Let_def)
      have "out @ take (Suc k - start) (drop start buf)
          = (o1 @ take (k - s1) (drop s1 buf)) @ [buf ! k]"
        using eq take_run_snoc [OF le klt] by simp
      also have "\<dots> = out0 @ concat (map emit_byte (take (Suc k) buf))"
      proof -
        have "emit_byte (buf ! k) = [buf ! k]"
          using False nq by (simp add: emit_byte_def Let_def)
        then show ?thesis using inv tk by simp
      qed
      finally show ?thesis using eq le by simp
    qed
  qed
qed

lemma write_string_sout:
  "sout_m (write_string buf w) = sout_m w @ [cQuote] @ concat (map emit_byte buf) @ [cQuote]"
proof -
  obtain start out where
    st: "fold (write_string_body buf) [0..<length buf] (0, sout_m w @ [cQuote]) = (start, out)"
    by (cases "fold (write_string_body buf) [0..<length buf] (0, sout_m w @ [cQuote])")
  from write_string_fold [OF le_refl st]
  have le: "start \<le> length buf"
    and inv: "out @ take (length buf - start) (drop start buf)
                = (sout_m w @ [cQuote]) @ concat (map emit_byte buf)"
    by simp_all
  have "(if start \<noteq> length buf then out @ take (length buf - start) (drop start buf) else out)
          = out @ take (length buf - start) (drop start buf)"
    by simp
  with st inv show ?thesis
    by (simp add: write_string_def)
qed

lemma write_string_other:
  "indent_m (write_string buf w) = indent_m w"
  "level_m (write_string buf w) = level_m w"
  "sep_status_m (write_string buf w) = sep_status_m w"
  by (simp_all add: write_string_def split: prod.splits)

lemma write_string_quoted: "sout_m (write_string buf w) = sout_m w @ quoted buf"
  by (simp add: quoted_def write_string_sout json_writer_init_def)

lemma quoted_eq: "quoted buf = [cQuote] @ concat (map emit_byte buf) @ [cQuote]"
  by (simp add: quoted_def write_string_sout json_writer_init_def)

subsection \<open>The escapes, and decoding them\<close>

lemma hex_table:
  "list_all (\<lambda>d. num_to_hex (int d) = hex_digit d \<and> hex_value (hex_digit d) = Some d)
     [0..<16]"
  by code_simp

lemma num_to_hex_hex_digit: "d < 16 \<Longrightarrow> num_to_hex (int d) = hex_digit d"
  using hex_table by (simp add: list_all_iff)

lemma hex_value_hex_digit: "d < 16 \<Longrightarrow> hex_value (hex_digit d) = Some d"
  using hex_table by (simp add: list_all_iff)

lemma low_nibble_int: "and (int v) 0xF = int (v mod 16)"
proof -
  have "(0xF :: int) = mask 4" by (simp add: mask_eq_exp_minus_1)
  then have "and (int v) 0xF = take_bit 4 (int v)" by (simp add: take_bit_eq_mask)
  also have "\<dots> = int v mod 16" by (simp add: take_bit_eq_mod)
  finally show ?thesis by (simp add: zmod_int)
qed

lemma high_nibble_int: "and (drop_bit 4 (int v)) 0xF = int (v div 16 mod 16)"
proof -
  have "drop_bit 4 (int v) = int (v div 16)"
    by (simp add: drop_bit_eq_div zdiv_int)
  then show ?thesis by (simp add: low_nibble_int)
qed

lemma control_escape_spec:
  assumes "v \<le> 31 \<or> v = 127"
  shows "control_escape (int v) =
     (if v = 8 then [CHR 0x5C, CHR ''b'']
      else if v = 12 then [CHR 0x5C, CHR ''f'']
      else if v = 10 then [CHR 0x5C, CHR ''n'']
      else if v = 13 then [CHR 0x5C, CHR ''r'']
      else if v = 9 then [CHR 0x5C, CHR ''t'']
      else [CHR 0x5C, CHR ''u'', CHR ''0'', CHR ''0'', hex_digit (v div 16), hex_digit (v mod 16)])"
proof -
  from assms have "v div 16 < 16" by auto
  then have hi: "num_to_hex (and (drop_bit 4 (int v)) 0xF) = hex_digit (v div 16)"
    by (simp add: high_nibble_int num_to_hex_hex_digit)
  have lo: "num_to_hex (and (int v) 0xF) = hex_digit (v mod 16)"
    by (simp add: low_nibble_int num_to_hex_hex_digit)
  show ?thesis
    unfolding control_escape_def hi lo
    by (simp add: cBackslash_def sUnicodeEsc_def)
qed

lemma char_eq_code:
  "ch = CHR 0x22 \<longleftrightarrow> (of_char ch :: nat) = 34"
  "ch = CHR 0x5C \<longleftrightarrow> (of_char ch :: nat) = 92"
proof -
  have "(of_char (CHR 0x22) :: nat) = 34" "(of_char (CHR 0x5C) :: nat) = 92" by simp_all
  then show "ch = CHR 0x22 \<longleftrightarrow> (of_char ch :: nat) = 34"
    "ch = CHR 0x5C \<longleftrightarrow> (of_char ch :: nat) = 92"
    by (metis of_char_eq_iff)+
qed

lemma emit_byte_spec: "emit_byte ch = escape_byte_spec ch"
proof -
  define v where "v = (of_char ch :: nat)"
  have c: "(of_char ch :: int) = int v"
    by (simp add: v_def of_nat_of_char)
  have q: "ch = CHR 0x22 \<longleftrightarrow> v = 34" and b: "ch = CHR 0x5C \<longleftrightarrow> v = 92"
    unfolding v_def by (rule char_eq_code)+
  have cq: "(of_char cQuote :: int) = 34" and cb: "(of_char cBackslash :: int) = 92"
    by (simp_all add: cQuote_def cBackslash_def)
  show ?thesis
  proof (cases "v = 34 \<or> v = 92")
    case True
    then have "emit_byte ch = [cBackslash, char_of (of_char ch :: int)]"
      by (auto simp: emit_byte_def Let_def c cq cb)
    moreover have "escape_byte_spec ch = [CHR 0x5C, ch]"
      using True q b by (auto simp: escape_byte_spec_def Let_def)
    ultimately show ?thesis by (simp add: cBackslash_def)
  next
    case nq: False
    show ?thesis
    proof (cases "v \<le> 31 \<or> v = 127")
      case True
      then have "emit_byte ch = control_escape (int v)"
        using nq by (auto simp: emit_byte_def Let_def c cq cb)
      with True nq q b show ?thesis
        by (auto simp: control_escape_spec escape_byte_spec_def Let_def v_def [symmetric])
    next
      case False
      then have "emit_byte ch = [ch]"
        using nq by (auto simp: emit_byte_def Let_def c cq cb)
      moreover have "escape_byte_spec ch = [ch]"
        using False nq q b by (auto simp: escape_byte_spec_def Let_def v_def [symmetric])
      ultimately show ?thesis by simp
    qed
  qed
qed


lemma hex_value_zero: "hex_value CHR ''0'' = Some 0"
  by (simp add: hex_value_def)

lemma unicode_escape_byte:
  assumes "v < 128"
  shows "unicode_escape (CHR ''0'' # CHR ''0'' # hex_digit (v div 16) # hex_digit (v mod 16) # rest)
           = Some ([char_of v], rest)"
proof -
  from assms have "v div 16 < 16" by simp
  then have "hex4 CHR ''0'' CHR ''0'' (hex_digit (v div 16)) (hex_digit (v mod 16))
               = Some (v div 16 * 16 + v mod 16)"
    by (simp add: hex4_def hex_value_zero hex_value_hex_digit)
  then have "hex4 CHR ''0'' CHR ''0'' (hex_digit (v div 16)) (hex_digit (v mod 16)) = Some v"
    by simp
  with assms show ?thesis
    by (simp add: unicode_escape_def utf8_encode_def)
qed

lemma short_escape_codes:
  "char_of (8::nat) = CHR 0x08" "char_of (12::nat) = CHR 0x0C" "char_of (10::nat) = CHR 0x0A"
  "char_of (13::nat) = CHR 0x0D" "char_of (9::nat) = CHR 0x09"
  by code_simp+

lemma json_unescape_escape:
  "json_unescape (escape_byte_spec ch @ rest) = map_option ((#) ch) (json_unescape rest)"
proof -
  define v where "v = (of_char ch :: nat)"
  have ch: "ch = char_of v" by (simp add: v_def)
  have q: "ch = CHR 0x22 \<longleftrightarrow> v = 34" and b: "ch = CHR 0x5C \<longleftrightarrow> v = 92"
    unfolding v_def by (rule char_eq_code)+
  consider (quote) "v = 34" | (backslash) "v = 92"
    | (short) "v = 8 \<or> v = 12 \<or> v = 10 \<or> v = 13 \<or> v = 9"
    | (unicode) "v \<le> 31 \<or> v = 127" "\<not> (v = 8 \<or> v = 12 \<or> v = 10 \<or> v = 13 \<or> v = 9)"
    | (plain) "v \<noteq> 34" "v \<noteq> 92" "\<not> (v \<le> 31 \<or> v = 127)"
    by blast
  then show ?thesis
  proof cases
    case quote
    then have "ch = CHR 0x22" using q by simp
    then show ?thesis by (simp add: escape_byte_spec_def)
  next
    case backslash
    then have "ch = CHR 0x5C" using b by simp
    then show ?thesis by (simp add: escape_byte_spec_def)
  next
    case short
    then have "ch = CHR 0x08 \<or> ch = CHR 0x0C \<or> ch = CHR 0x0A \<or> ch = CHR 0x0D \<or> ch = CHR 0x09"
      using ch short_escape_codes by metis
    then show ?thesis
      by (elim disjE) (simp_all add: escape_byte_spec_def)
  next
    case unicode
    then have e: "escape_byte_spec ch =
        [CHR 0x5C, CHR ''u'', CHR ''0'', CHR ''0'', hex_digit (v div 16), hex_digit (v mod 16)]"
      using q b by (auto simp: escape_byte_spec_def Let_def v_def [symmetric])
    from unicode have "v < 128" by auto
    then show ?thesis
      unfolding e using ch by (cases "json_unescape rest") (simp_all add: unicode_escape_byte)
  next
    case plain
    then have e: "escape_byte_spec ch = [ch]"
      using q b by (auto simp: escape_byte_spec_def Let_def v_def [symmetric])
    from plain have "\<not> v < 32" by simp
    then show ?thesis
      unfolding e using plain q b by (simp add: v_def [symmetric])
  qed
qed

lemma json_unescape_body:
  "json_unescape (concat (map emit_byte buf) @ [CHR 0x22]) = Some buf"
  by (induction buf) (simp_all add: emit_byte_spec json_unescape_escape)

lemma json_decode_quoted: "json_decode_string (quoted buf) = Some buf"
  by (simp add: quoted_eq json_decode_string_def cQuote_def json_unescape_body)

text \<open>
  Claim C1. For every byte range, the control bytes 0 to 31, the byte 127, the quotation
  mark and the reverse solidus among its bytes or not, decoding the literal that
  \<^verbatim>\<open>write_string\<close> puts on the stream gives back the bytes of the range.
\<close>

theorem write_string_roundtrip:
  "json_decode_string (drop (length (sout_m w)) (sout_m (write_string buf w))) = Some buf"
  by (simp add: write_string_quoted json_decode_quoted)

text \<open>
  Claim C2. \<^verbatim>\<open>write_string\<close> puts on the stream a quotation mark, then for every byte of
  the range, in order: a reverse solidus and the byte for a quotation mark or a reverse
  solidus; the two-character escape for backspace, form feed, newline, carriage return and
  tab; \<^verbatim>\<open>\u00\<close> and the two hexadecimal digits of the byte for every other byte up to 31
  and for 127; the byte itself otherwise, also above 127; then a quotation mark.
\<close>

theorem write_string_per_byte:
  "sout_m (write_string buf w)
     = sout_m w @ [CHR 0x22] @ concat (map escape_byte_spec buf) @ [CHR 0x22]"
proof -
  have "emit_byte = escape_byte_spec"
    by (rule ext) (rule emit_byte_spec)
  then show ?thesis
    by (simp add: write_string_sout cQuote_def)
qed

section \<open>Separators and indentation\<close>

lemma indent_sout: "sout_m (indent w) = sout_m w @ indent_text w"
  by (simp add: indent_def indent_text_def)

lemma indent_other:
  "indent_m (indent w) = indent_m w"
  "level_m (indent w) = level_m w"
  "sep_status_m (indent w) = sep_status_m w"
  by (simp_all add: indent_def)

lemma value_sep_sout:
  "sout_m (value_sep w) = sout_m w @
     (if sep_status_m w = SepStatus_next then [cValueSep] else []) @ indent_text w"
  by (simp add: value_sep_def indent_sout indent_text_def)

lemma value_sep_other:
  "indent_m (value_sep w) = indent_m w"
  "level_m (value_sep w) = level_m w"
  "sep_status_m (value_sep w) = sep_status_m w"
  by (simp_all add: value_sep_def indent_other)

text \<open>
  Claim C3. With an indent width and a nesting level that are not negative, the prefix
  written by \<^verbatim>\<open>value_sep\<close> is a comma exactly when the separator status is \<^verbatim>\<open>next\<close>
  (after a value), followed by a newline and exactly nesting level times indent width
  spaces exactly when the indent width is positive and the status is not \<^verbatim>\<open>none\<close>; it
  writes nothing else.
\<close>

theorem value_sep_prefix:
  assumes "0 \<le> indent_m w" and "0 \<le> level_m w"
  shows "sout_m (value_sep w) = sout_m w @
     (if sep_status_m w = SepStatus_next then '','' else []) @
     (if 0 < indent_m w \<and> sep_status_m w \<noteq> SepStatus_none
      then CHR 0x0A # replicate (nat (level_m w) * nat (indent_m w)) CHR '' '' else [])"
proof -
  have "nat (level_m w * indent_m w) = nat (level_m w) * nat (indent_m w)"
    using assms by (simp add: nat_mult_distrib)
  moreover have "indent_m w \<noteq> 0 \<longleftrightarrow> 0 < indent_m w"
    using assms by auto
  ultimately show ?thesis
    by (simp add: value_sep_sout indent_text_def cValueSep_def)
qed

theorem value_sep_prefix_witness:
  "(0::int) \<le> 2 \<and> (0::int) \<le> 1 \<and>
   sout_m (value_sep \<lparr>sout_m = ''[1'', indent_m = 2, level_m = 1, sep_status_m = SepStatus_next\<rparr>)
     = ''[1,'' @ [CHR 0x0A] @ ''  ''"
  using value_sep_prefix
    [of "\<lparr>sout_m = ''[1'', indent_m = 2, level_m = 1, sep_status_m = SepStatus_next\<rparr>"]
  by (simp add: numeral_2_eq_2)

section \<open>Names and values\<close>

lemma name_sout:
  "sout_m (name buf w) =
     sout_m w @ (if sep_status_m w = SepStatus_next then '','' else []) @ indent_text w @
       [CHR 0x22] @ concat (map escape_byte_spec buf) @ [CHR 0x22] @
       take (if indent_m w \<noteq> 0 then 2 else 1) '': ''"
proof -
  have "emit_byte = escape_byte_spec"
    by (rule ext) (rule emit_byte_spec)
  then show ?thesis
    by (simp add: name_def Let_def write_string_sout write_string_other value_sep_sout
        value_sep_other sNameSep_def cQuote_def cValueSep_def)
qed

text \<open>
  Claim C4. \<^verbatim>\<open>name\<close> writes the separator and the indentation (a comma if the status is
  \<^verbatim>\<open>next\<close>; with a positive indent width and a status that is not \<^verbatim>\<open>none\<close>, a newline and
  the spaces of the level), then the name between quotation marks with every byte
  escaped, then a colon and a space when the indent width is positive and a colon alone
  when it is 0; it leaves the separator status \<^verbatim>\<open>none\<close>.
\<close>

theorem name_output:
  "(0 < indent_m w \<longrightarrow>
      sout_m (name buf w) =
        sout_m w @ (if sep_status_m w = SepStatus_next then '','' else []) @
          (if sep_status_m w \<noteq> SepStatus_none
           then CHR 0x0A # replicate (nat (level_m w * indent_m w)) CHR '' '' else []) @
          [CHR 0x22] @ concat (map escape_byte_spec buf) @ [CHR 0x22] @ '': '') \<and>
   (indent_m w = 0 \<longrightarrow>
      sout_m (name buf w) =
        sout_m w @ (if sep_status_m w = SepStatus_next then '','' else []) @
          [CHR 0x22] @ concat (map escape_byte_spec buf) @ [CHR 0x22] @ '':'') \<and>
   sep_status_m (name buf w) = SepStatus_none"
proof (intro conjI impI)
  assume "0 < indent_m w"
  then show "sout_m (name buf w) =
        sout_m w @ (if sep_status_m w = SepStatus_next then '','' else []) @
          (if sep_status_m w \<noteq> SepStatus_none
           then CHR 0x0A # replicate (nat (level_m w * indent_m w)) CHR '' '' else []) @
          [CHR 0x22] @ concat (map escape_byte_spec buf) @ [CHR 0x22] @ '': ''"
    by (simp add: name_sout indent_text_def)
next
  assume "indent_m w = 0"
  then show "sout_m (name buf w) =
        sout_m w @ (if sep_status_m w = SepStatus_next then '','' else []) @
          [CHR 0x22] @ concat (map escape_byte_spec buf) @ [CHR 0x22] @ '':''"
    by (simp add: name_sout indent_text_def)
next
  show "sep_status_m (name buf w) = SepStatus_none"
    by (simp add: name_def Let_def)
qed

theorem name_output_witness:
  \<open>(0 < indent_m \<lparr>sout_m = ''{"a":1'', indent_m = 2, level_m = 1, sep_status_m = SepStatus_next\<rparr> \<and>
    sout_m (name [CHR ''k'', CHR 0x22, CHR 0x09, CHR 0x01]
        \<lparr>sout_m = ''{"a":1'', indent_m = 2, level_m = 1, sep_status_m = SepStatus_next\<rparr>)
      = ''{"a":1,'' @ [CHR 0x0A] @ ''  '' @
        [CHR 0x22, CHR ''k'', CHR 0x5C, CHR 0x22, CHR 0x5C, CHR ''t'',
         CHR 0x5C, CHR ''u'', CHR ''0'', CHR ''0'', CHR ''0'', CHR ''1'', CHR 0x22] @ '': '') \<and>
   (indent_m \<lparr>sout_m = ''{"a":1'', indent_m = 0, level_m = 1, sep_status_m = SepStatus_next\<rparr> = 0 \<and>
    sout_m (name [CHR ''k'', CHR 0x22, CHR 0x09, CHR 0x01]
        \<lparr>sout_m = ''{"a":1'', indent_m = 0, level_m = 1, sep_status_m = SepStatus_next\<rparr>)
      = ''{"a":1,'' @
        [CHR 0x22, CHR ''k'', CHR 0x5C, CHR 0x22, CHR 0x5C, CHR ''t'',
         CHR 0x5C, CHR ''u'', CHR ''0'', CHR ''0'', CHR ''0'', CHR ''1'', CHR 0x22] @ '':'')\<close>
proof -
  have esc:
    "escape_byte_spec CHR ''k'' = [CHR ''k'']"
    "escape_byte_spec CHR 0x22 = [CHR 0x5C, CHR 0x22]"
    "escape_byte_spec CHR 0x09 = [CHR 0x5C, CHR ''t'']"
    "escape_byte_spec CHR 0x01 = [CHR 0x5C, CHR ''u'', CHR ''0'', CHR ''0'', CHR ''0'', CHR ''1'']"
    by code_simp+
  show ?thesis
    using
      name_output [of "\<lparr>sout_m = ''{\"a\":1'', indent_m = 2, level_m = 1,
        sep_status_m = SepStatus_next\<rparr>" "[CHR ''k'', CHR 0x22, CHR 0x09, CHR 0x01]"]
      name_output [of "\<lparr>sout_m = ''{\"a\":1'', indent_m = 0, level_m = 1,
        sep_status_m = SepStatus_next\<rparr>" "[CHR ''k'', CHR 0x22, CHR 0x09, CHR 0x01]"]
    by (simp add: esc numeral_2_eq_2)
qed

text \<open>
  Claim C10. For the empty range, \<^verbatim>\<open>value\<close> writes the prefix of \<^verbatim>\<open>value_sep\<close> and then
  two quotation marks with nothing between them, and sets the separator status to
  \<^verbatim>\<open>next\<close>.
\<close>

theorem value_empty_range:
  "sout_m (value_range [] w) = sout_m (value_sep w) @ [CHR 0x22, CHR 0x22] \<and>
   sep_status_m (value_range [] w) = SepStatus_next"
  by (simp add: value_range_def Let_def write_string_def cQuote_def)

lemma strlen_terminated: "CHR 0x00 \<notin> set s \<Longrightarrow> strlen (s @ CHR 0x00 # rest) = Some (length s)"
  by (induction s) auto

text \<open>
  Claim C9. The overloads for a zero-terminated string, given the bytes \<open>s\<close> (none of
  them zero), the terminator and whatever lies behind it, and the overloads for a string
  class that holds the bytes \<open>s\<close>, yield the writer that the range overloads yield for
  \<open>s\<close>: the same stream and the same fields.
\<close>

theorem string_overloads:
  "(CHR 0x00 \<notin> set s \<longrightarrow>
      name_strz (s @ CHR 0x00 # rest) w = Some (name s w) \<and>
      value_strz (s @ CHR 0x00 # rest) w = Some (value_range s w)) \<and>
   name_StringT \<lparr>data_m = s @ rest, size_m = length s\<rparr> w = name s w \<and>
   value_StringT \<lparr>data_m = s @ rest, size_m = length s\<rparr> w = value_range s w"
  by (simp add: name_strz_def value_strz_def name_StringT_def value_StringT_def strlen_terminated)

theorem string_overloads_witness:
  "CHR 0x00 \<notin> set ''ab'' \<and>
   name_strz (''ab'' @ CHR 0x00 # ''xy'') (json_writer_init [] 0)
     = Some (name ''ab'' (json_writer_init [] 0)) \<and>
   value_strz (''ab'' @ CHR 0x00 # ''xy'') (json_writer_init [] 0)
     = Some (value_range ''ab'' (json_writer_init [] 0))"
  using string_overloads [of "''ab''" "''xy''" "json_writer_init [] 0"]
  by simp

section \<open>Sequences of calls\<close>

lemma exec_sout: "sout_m (exec c w) = sout_m w @ prefix_text c w @ token (indent_m w) c"
  by (cases c)
    (simp_all add: array_start_def array_end_def object_start_def object_end_def name_def
      value_range_def value_int_def value_char_def value_bool_def value_null_def Let_def
      prefix_text_def value_sep_sout value_sep_other indent_sout write_string_quoted write_string_other)

lemma exec_indent: "indent_m (exec c w) = indent_m w"
  by (cases c)
    (simp_all add: array_start_def array_end_def object_start_def object_end_def name_def
      value_range_def value_int_def value_char_def value_bool_def value_null_def Let_def
      value_sep_other indent_other write_string_other)

lemma exec_level: "level_m (exec c w) = level_m w + depth_change c"
  by (cases c)
    (simp_all add: array_start_def array_end_def object_start_def object_end_def name_def
      value_range_def value_int_def value_char_def value_bool_def value_null_def Let_def
      value_sep_other indent_other write_string_other)

lemma exec_status: "sep_status_m (exec c w) = status_after c"
  by (cases c)
    (simp_all add: array_start_def array_end_def object_start_def object_end_def name_def
      value_range_def value_int_def value_char_def value_bool_def value_null_def Let_def
      status_after_def value_sep_other indent_other write_string_other)

lemma run_append: "run (xs @ ys) w = run ys (run xs w)"
  by (induction xs arbitrary: w) simp_all

lemma run_indent: "indent_m (run cs w) = indent_m w"
  by (induction cs arbitrary: w) (simp_all add: exec_indent)

lemma run_level: "level_m (run cs w) = level_m w + depth cs"
  by (induction cs arbitrary: w) (simp_all add: exec_level depth_def del: depth_change.simps)

lemma run_status_snoc: "sep_status_m (run (cs @ [c]) w) = status_after c"
  by (simp add: run_append exec_status)

text \<open>
  Claim C7. With indent width 0, the calls object start, name \<^verbatim>\<open>a\<close>, value 1, name
  \<^verbatim>\<open>b\<close>, Boolean value true, object end write \<^verbatim>\<open>{"a":1,"b":true}\<close>.
\<close>

theorem scenario_object:
  \<open>sout_m (object_end (value_bool True (name ''b'' (value_int 1 (name ''a''
      (object_start (json_writer_init [] 0)))))))
   = ''{"a":1,"b":true}''\<close>
  by code_simp

text \<open>
  Claim C8, as stated, fails: with indent width 2 a new writer puts a newline between
  the two braces of an empty object.
\<close>

theorem empty_object_indent_2:
  "sout_m (object_end (object_start (json_writer_init [] 2))) = [CHR ''{'', CHR 0x0A, CHR ''}''] \<and>
   sout_m (object_end (object_start (json_writer_init [] 2))) \<noteq> ''{}''"
  by code_simp

text \<open>
  Claim C8, amended. An object start immediately followed by an object end writes, after
  the prefix of the start, an opening brace, then a newline and nesting level times
  indent width spaces if the indent width is not 0 and nothing if it is 0, then a
  closing brace; there is no comma between the braces.
\<close>

theorem object_start_end:
  "sout_m (object_end (object_start w)) =
     sout_m (value_sep w) @ ''{'' @
       (if indent_m w \<noteq> 0
        then CHR 0x0A # replicate (nat (level_m w * indent_m w)) CHR '' '' else []) @ ''}''"
  by (simp add: object_start_def object_end_def Let_def indent_sout indent_text_def
      value_sep_other cObjStart_def cObjEnd_def)

subsection \<open>Indent width 0\<close>

lemma exec_container_chars:
  assumes "is_container_call c" and "indent_m w = 0"
  shows "set (sout_m (exec c w)) \<subseteq> set (sout_m w) \<union> set ''[]{},''"
proof -
  have "set (prefix_text c w) \<subseteq> set ''[]{},''"
    using assms(2) by (auto simp: prefix_text_def indent_text_def cValueSep_def)
  moreover have "set (token (indent_m w) c) \<subseteq> set ''[]{},''"
    using assms(1)
    by (cases c)
      (simp_all add: is_container_call_def cArrStart_def cArrEnd_def cObjStart_def cObjEnd_def)
  ultimately show ?thesis
    unfolding exec_sout by auto
qed

lemma run_container_chars:
  "list_all is_container_call cs \<Longrightarrow> indent_m w = 0 \<Longrightarrow>
   set (sout_m (run cs w)) \<subseteq> set (sout_m w) \<union> set ''[]{},''"
proof (induction cs arbitrary: w)
  case Nil
  then show ?case by auto
next
  case (Cons c cs)
  from Cons.prems have c: "is_container_call c" and cs: "list_all is_container_call cs"
    by simp_all
  have "set (sout_m (run cs (exec c w))) \<subseteq> set (sout_m (exec c w)) \<union> set ''[]{},''"
    using Cons.IH [OF cs] Cons.prems(2) by (simp add: exec_indent)
  also have "\<dots> \<subseteq> set (sout_m w) \<union> set ''[]{},''"
    using exec_container_chars [OF c Cons.prems(2)] by blast
  finally show ?case by simp
qed

text \<open>
  Claim C5. On a new writer with indent width 0 and an empty stream, a balanced sequence
  of array start, array end, object start and object end calls writes neither a newline
  nor a space.
\<close>

theorem compact_no_whitespace:
  assumes "list_all is_container_call cs" and "balanced cs"
  shows "CHR 0x0A \<notin> set (sout_m (run cs (json_writer_init [] 0))) \<and>
         CHR '' '' \<notin> set (sout_m (run cs (json_writer_init [] 0)))"
proof -
  have "set (sout_m (run cs (json_writer_init [] 0))) \<subseteq> set ''[]{},''"
    using run_container_chars [OF assms(1), of "json_writer_init [] 0"]
    by (simp add: json_writer_init_def)
  then show ?thesis by auto
qed

theorem compact_no_whitespace_witness:
  "list_all is_container_call [ArrayStart, ObjectStart, ObjectEnd, ArrayStart, ArrayEnd, ArrayEnd] \<and>
   balanced [ArrayStart, ObjectStart, ObjectEnd, ArrayStart, ArrayEnd, ArrayEnd] \<and>
   CHR 0x0A \<notin> set (sout_m (run [ArrayStart, ObjectStart, ObjectEnd, ArrayStart, ArrayEnd, ArrayEnd]
      (json_writer_init [] 0))) \<and>
   CHR '' '' \<notin> set (sout_m (run [ArrayStart, ObjectStart, ObjectEnd, ArrayStart, ArrayEnd, ArrayEnd]
      (json_writer_init [] 0)))"
  using compact_no_whitespace
    [of "[ArrayStart, ObjectStart, ObjectEnd, ArrayStart, ArrayEnd, ArrayEnd]"]
  by (simp add: is_container_call_def balanced_def)

section \<open>The layout with a positive indent width\<close>

subsection \<open>Tokens\<close>

lemma dec_digits_set: "set (dec_digits n) \<subseteq> set ''0123456789''"
proof (induction n rule: dec_digits.induct)
  case (1 n)
  show ?case
  proof (cases "n < 10")
    case True
    then have "''0123456789'' ! n \<in> set ''0123456789''"
      by (intro nth_mem) simp
    with True show ?thesis
      by (subst dec_digits.simps) simp
  next
    case False
    have "''0123456789'' ! (n mod 10) \<in> set ''0123456789''"
      by (intro nth_mem) simp
    with False "1.IH" show ?thesis
      by (subst dec_digits.simps) simp
  qed
qed

lemma dec_digits_nonempty: "dec_digits n \<noteq> []"
  by (subst dec_digits.simps) simp

lemma ostream_int_set: "set (ostream_int n) \<subseteq> set ''-0123456789''"
proof -
  have sub: "set ''0123456789'' \<subseteq> set ''-0123456789''"
    by (rule set_subset_Cons)
  have d: "set (dec_digits k) \<subseteq> set ''-0123456789''" for k
    by (rule subset_trans [OF dec_digits_set sub])
  show ?thesis
  proof (cases "n < 0")
    case True
    then have "ostream_int n = CHR ''-'' # dec_digits (nat (- n))"
      by (simp add: ostream_int_def)
    moreover have "set (CHR ''-'' # dec_digits (nat (- n))) \<subseteq> set ''-0123456789''"
      unfolding set_simps(2) [of "CHR ''-''" "dec_digits (nat (- n))"]
      using d [of "nat (- n)"] by (intro insert_subsetI) simp_all
    ultimately show ?thesis by simp
  next
    case False
    then have "ostream_int n = dec_digits (nat n)"
      by (simp add: ostream_int_def)
    then show ?thesis using d [of "nat n"] by simp
  qed
qed

lemma ostream_int_nonempty: "ostream_int n \<noteq> []"
  by (simp add: ostream_int_def dec_digits_nonempty)

lemma num_to_hex_set: "num_to_hex (and (int v) 0xF) \<in> set sHex"
proof -
  have "v mod 16 < length sHex" by (simp add: sHex_def)
  then have "sHex ! (v mod 16) \<in> set sHex" by (rule nth_mem)
  then show ?thesis by (simp add: num_to_hex_def low_nibble_int)
qed

lemma num_to_hex_set_high: "num_to_hex (and (drop_bit 4 (int v)) 0xF) \<in> set sHex"
proof -
  have "drop_bit 4 (int v) = int (v div 16)"
    by (simp add: drop_bit_eq_div zdiv_int)
  then show ?thesis using num_to_hex_set [of "v div 16"] by simp
qed

lemma control_escape_no_newline: "CHR 0x0A \<notin> set (control_escape (int v))"
proof -
  have "CHR 0x0A \<notin> set sHex" by (simp add: sHex_def)
  then have "num_to_hex (and (int v) 0xF) \<noteq> CHR 0x0A"
    "num_to_hex (and (drop_bit 4 (int v)) 0xF) \<noteq> CHR 0x0A"
    using num_to_hex_set [of v] num_to_hex_set_high [of v] by metis+
  then show ?thesis
    by (simp add: control_escape_def cBackslash_def sUnicodeEsc_def)
qed

lemma emit_byte_no_newline: "CHR 0x0A \<notin> set (emit_byte ch)"
proof -
  define v where "v = (of_char ch :: nat)"
  have c: "(of_char ch :: int) = int v"
    by (simp add: v_def of_nat_of_char)
  have nl: "ch = CHR 0x0A \<longleftrightarrow> v = 10"
  proof -
    have "(of_char (CHR 0x0A) :: nat) = 10" by simp
    then show ?thesis unfolding v_def by (metis of_char_eq_iff)
  qed
  have cq: "(of_char cQuote :: int) = 34" and cb: "(of_char cBackslash :: int) = 92"
    by (simp_all add: cQuote_def cBackslash_def)
  show ?thesis
  proof (cases "v = 34 \<or> v = 92")
    case True
    then have "emit_byte ch = [cBackslash, char_of (of_char ch :: int)]"
      by (auto simp: emit_byte_def Let_def c cq cb)
    then have "emit_byte ch = [cBackslash, ch]" by simp
    moreover from True have "v \<noteq> 10" by auto
    ultimately show ?thesis using nl by (simp add: cBackslash_def)
  next
    case nq: False
    show ?thesis
    proof (cases "v \<le> 31 \<or> v = 127")
      case True
      with nq have "emit_byte ch = control_escape (int v)"
        by (auto simp: emit_byte_def Let_def c cq cb)
      then show ?thesis by (simp add: control_escape_no_newline)
    next
      case False
      with nq have "emit_byte ch = [ch]"
        by (auto simp: emit_byte_def Let_def c cq cb)
      moreover from False have "v \<noteq> 10" by auto
      ultimately show ?thesis using nl by simp
    qed
  qed
qed

lemma quoted_no_newline: "CHR 0x0A \<notin> set (quoted buf)"
  by (simp add: quoted_eq cQuote_def emit_byte_no_newline)

lemma quoted_hd: "\<exists>t. quoted buf = CHR 0x22 # t"
  by (simp add: quoted_eq cQuote_def)

lemma token_no_newline: "writes_no_layout_char c \<Longrightarrow> CHR 0x0A \<notin> set (token N c)"
proof (cases c)
  case (ValueChar ch)
  assume "writes_no_layout_char c"
  with ValueChar show ?thesis by auto
next
  case (ValueInt n)
  then show ?thesis using ostream_int_set [of n] by auto
next
  case (Name buf)
  have "set (take (if N \<noteq> 0 then 2 else 1) sNameSep) \<subseteq> set sNameSep"
    by (rule set_take_subset)
  then have "CHR 0x0A \<notin> set (take (if N \<noteq> 0 then 2 else 1) sNameSep)"
    by (auto simp: sNameSep_def)
  with Name show ?thesis by (simp add: quoted_no_newline)
qed (simp_all add: quoted_no_newline cArrStart_def cArrEnd_def cObjStart_def cObjEnd_def)

lemma token_starts:
  "writes_no_layout_char c \<Longrightarrow> token N c \<noteq> [] \<and> hd (token N c) \<noteq> CHR '' ''"
proof (cases c)
  case (ValueChar ch)
  assume "writes_no_layout_char c"
  with ValueChar show ?thesis by simp
next
  case (ValueInt n)
  have "hd (ostream_int n) \<in> set (ostream_int n)"
    using ostream_int_nonempty by (rule hd_in_set)
  then have "hd (ostream_int n) \<noteq> CHR '' ''"
    using ostream_int_set [of n] by auto
  with ValueInt show ?thesis by (simp add: ostream_int_nonempty)
next
  case (Name buf)
  obtain t where "quoted buf = CHR 0x22 # t" using quoted_hd by blast
  with Name show ?thesis by simp
next
  case (ValueString buf)
  obtain t where "quoted buf = CHR 0x22 # t" using quoted_hd by blast
  with ValueString show ?thesis by simp
qed (simp_all add: cArrStart_def cArrEnd_def cObjStart_def cObjEnd_def)

subsection \<open>Lines\<close>

lemma split_lines_nonempty: "split_lines a \<noteq> []"
  by (cases a) simp_all

lemma split_lines_no_newline: "CHR 0x0A \<notin> set x \<Longrightarrow> split_lines x = [x]"
  by (induction x) auto

lemma split_lines_newline:
  "split_lines (a @ CHR 0x0A # b) = split_lines a @ split_lines b"
  by (induction a) (simp_all add: split_lines_nonempty)

lemma split_lines_append:
  "CHR 0x0A \<notin> set x \<Longrightarrow>
   split_lines (a @ x) = butlast (split_lines a) @ [last (split_lines a) @ x]"
proof (induction a)
  case Nil
  then show ?case by (simp add: split_lines_no_newline)
next
  case (Cons c a)
  then show ?case
    by (cases "split_lines a") (simp_all add: split_lines_nonempty)
qed

lemma leading_spaces_append:
  "y \<noteq> [] \<Longrightarrow> hd y \<noteq> CHR '' '' \<Longrightarrow> leading_spaces (x @ y) = leading_spaces x"
  by (induction x) (auto simp: leading_spaces_def neq_Nil_conv)

lemma leading_spaces_replicate:
  "y \<noteq> [] \<Longrightarrow> hd y \<noteq> CHR '' '' \<Longrightarrow> leading_spaces (replicate n CHR '' '' @ y) = n"
  by (induction n) (auto simp: leading_spaces_def neq_Nil_conv)

lemma lines_append_same:
  assumes "CHR 0x0A \<notin> set y" and "y = [] \<or> hd y \<noteq> CHR '' ''"
  shows "map leading_spaces (split_lines (a @ y)) = map leading_spaces (split_lines a)"
proof (cases "y = []")
  case True
  then show ?thesis by simp
next
  case False
  with assms(2) have "leading_spaces (last (split_lines a) @ y) = leading_spaces (last (split_lines a))"
    by (simp add: leading_spaces_append)
  then have "map leading_spaces (split_lines (a @ y))
      = map leading_spaces (butlast (split_lines a) @ [last (split_lines a)])"
    by (simp add: split_lines_append [OF assms(1)])
  then show ?thesis by (simp add: split_lines_nonempty)
qed

lemma prefix_text_none: "sep_status_m w = SepStatus_none \<Longrightarrow> prefix_text c w = []"
  by (simp add: prefix_text_def indent_text_def)

lemma prefix_text_indented:
  assumes "indent_m w \<noteq> 0" and "sep_status_m w \<noteq> SepStatus_none"
  shows "prefix_text c w =
     (if sep_status_m w = SepStatus_next \<and> \<not> is_end c then [cValueSep] else []) @
     CHR 0x0A #
     replicate (nat ((if is_end c then level_m w - 1 else level_m w) * indent_m w)) CHR '' ''"
  using assms by (simp add: prefix_text_def indent_text_def)

lemma exec_lines:
  assumes "indent_m w \<noteq> 0" and safe: "writes_no_layout_char c"
  shows "map leading_spaces (split_lines (sout_m (exec c w))) =
     map leading_spaces (split_lines (sout_m w)) @
       (if sep_status_m w = SepStatus_none then []
        else [nat ((if is_end c then level_m w - 1 else level_m w) * indent_m w)])"
proof (cases "sep_status_m w = SepStatus_none")
  case True
  have "map leading_spaces (split_lines (sout_m w @ token (indent_m w) c))
      = map leading_spaces (split_lines (sout_m w))"
    using token_no_newline [OF safe] token_starts [OF safe]
    by (intro lines_append_same) simp_all
  with True show ?thesis
    by (simp add: exec_sout prefix_text_none)
next
  case False
  define sep where
    "sep = (if sep_status_m w = SepStatus_next \<and> \<not> is_end c then [cValueSep] else [])"
  define k where "k = nat ((if is_end c then level_m w - 1 else level_m w) * indent_m w)"
  have out: "sout_m (exec c w)
      = (sout_m w @ sep) @ CHR 0x0A # (replicate k CHR '' '' @ token (indent_m w) c)"
    using prefix_text_indented [OF assms(1) False, of c]
    by (simp add: exec_sout sep_def k_def)
  have nl: "CHR 0x0A \<notin> set (replicate k CHR '' '' @ token (indent_m w) c)"
    using token_no_newline [OF safe] by auto
  have "map leading_spaces (split_lines (sout_m w @ sep))
      = map leading_spaces (split_lines (sout_m w))"
    by (intro lines_append_same) (simp_all add: sep_def cValueSep_def)
  moreover have "leading_spaces (replicate k CHR '' '' @ token (indent_m w) c) = k"
    using token_starts [OF safe] by (intro leading_spaces_replicate) simp_all
  ultimately have "map leading_spaces (split_lines (sout_m (exec c w)))
      = map leading_spaces (split_lines (sout_m w)) @ [k]"
    unfolding out split_lines_newline split_lines_no_newline [OF nl] by simp
  with False show ?thesis by (simp add: k_def)
qed

lemma status_after_none: "status_after c = SepStatus_none \<longleftrightarrow> is_name c"
  by (cases c) (simp_all add: status_after_def)

lemma run_lines:
  "0 < indent_m w \<Longrightarrow> list_all writes_no_layout_char cs \<Longrightarrow>
   map leading_spaces (split_lines (sout_m (run cs w))) =
     map leading_spaces (split_lines (sout_m w)) @
       map (\<lambda>d. nat (indent_m w * d))
         (line_depths_from (level_m w) (sep_status_m w = SepStatus_none) cs)"
proof (induction cs arbitrary: w)
  case Nil
  then show ?case by simp
next
  case (Cons c cs)
  from Cons.prems have pos: "0 < indent_m (exec c w)" and nz: "indent_m w \<noteq> 0"
    and c: "writes_no_layout_char c" and cs: "list_all writes_no_layout_char cs"
    by (simp_all add: exec_indent)
  have "map leading_spaces (split_lines (sout_m (run cs (exec c w)))) =
     map leading_spaces (split_lines (sout_m (exec c w))) @
       map (\<lambda>d. nat (indent_m w * d))
         (line_depths_from (level_m w + depth_change c) (is_name c) cs)"
    using Cons.IH [OF pos cs]
    by (simp only: exec_indent exec_level exec_status status_after_none)
  then show ?case
    by (simp add: exec_lines [OF nz c] mult.commute del: depth_change.simps)
qed

lemma init_lines:
  "map leading_spaces (split_lines (sout_m (run cs (json_writer_init [] N)))) =
     map (\<lambda>d. nat (N * d)) (line_depths cs)"
  if "0 < N" and "list_all writes_no_layout_char cs"
  using run_lines [of "json_writer_init [] N" cs] that
  by (simp add: json_writer_init_def line_depths_def leading_spaces_def)

subsection \<open>Balanced calls keep the depth from going below 0\<close>

lemma balanced_from_line_depths:
  "balanced_from st cs \<Longrightarrow> \<forall>d \<in> set (line_depths_from (int (length st)) sl cs). 0 \<le> d"
proof (induction cs arbitrary: st sl)
  case Nil
  then show ?case by simp
next
  case (Cons c cs)
  show ?case
  proof (cases c)
    case ArrayStart
    with Cons.prems have "balanced_from (Array # st) cs" by simp
    from Cons.IH [OF this, of "is_name c"] ArrayStart show ?thesis by (simp add: ac_simps)
  next
    case ObjectStart
    with Cons.prems have "balanced_from (Object # st) cs" by simp
    from Cons.IH [OF this, of "is_name c"] ObjectStart show ?thesis by (simp add: ac_simps)
  next
    case ArrayEnd
    with Cons.prems obtain st' where st: "st = Array # st'" and b: "balanced_from st' cs"
      by (auto split: list.splits container.splits)
    from Cons.IH [OF b, of "is_name c"] ArrayEnd st show ?thesis by simp
  next
    case ObjectEnd
    with Cons.prems obtain st' where st: "st = Object # st'" and b: "balanced_from st' cs"
      by (auto split: list.splits container.splits)
    from Cons.IH [OF b, of "is_name c"] ObjectEnd st show ?thesis by simp
  next
    case (Name x)
    with Cons.prems have "balanced_from st cs" by simp
    from Cons.IH [OF this, of "is_name c"] Name show ?thesis by simp
  next
    case (ValueString x)
    with Cons.prems have "balanced_from st cs" by simp
    from Cons.IH [OF this, of "is_name c"] ValueString show ?thesis by simp
  next
    case (ValueInt x)
    with Cons.prems have "balanced_from st cs" by simp
    from Cons.IH [OF this, of "is_name c"] ValueInt show ?thesis by simp
  next
    case (ValueChar x)
    with Cons.prems have "balanced_from st cs" by simp
    from Cons.IH [OF this, of "is_name c"] ValueChar show ?thesis by simp
  next
    case (ValueBool x)
    with Cons.prems have "balanced_from st cs" by simp
    from Cons.IH [OF this, of "is_name c"] ValueBool show ?thesis by simp
  next
    case ValueNull
    with Cons.prems have "balanced_from st cs" by simp
    from Cons.IH [OF this, of "is_name c"] ValueNull show ?thesis by simp
  qed
qed

text \<open>After a prefix of balanced calls, the stack of open containers has the depth of
  the prefix, and an end call finds a container to close.\<close>

lemma balanced_from_prefix:
  "balanced_from st (xs @ ys) \<Longrightarrow>
   \<exists>st'. balanced_from st' ys \<and> int (length st') = int (length st) + depth xs"
proof (induction xs arbitrary: st)
  case Nil
  then show ?case by (auto simp: depth_def)
next
  case (Cons c xs)
  have step: "\<exists>st1. balanced_from st1 (xs @ ys) \<and> int (length st1) = int (length st) + depth_change c"
  proof (cases c)
    case ArrayEnd
    with Cons.prems obtain st' where "st = Array # st'" "balanced_from st' (xs @ ys)"
      by (auto split: list.splits container.splits)
    with ArrayEnd show ?thesis by auto
  next
    case ObjectEnd
    with Cons.prems obtain st' where "st = Object # st'" "balanced_from st' (xs @ ys)"
      by (auto split: list.splits container.splits)
    with ObjectEnd show ?thesis by auto
  next
    case ArrayStart
    with Cons.prems have "balanced_from (Array # st) (xs @ ys)" by simp
    with ArrayStart show ?thesis by (intro exI [of _ "Array # st"]) simp
  next
    case ObjectStart
    with Cons.prems have "balanced_from (Object # st) (xs @ ys)" by simp
    with ObjectStart show ?thesis by (intro exI [of _ "Object # st"]) simp
  qed (use Cons.prems in auto)
  then obtain st1 where b1: "balanced_from st1 (xs @ ys)"
    and l1: "int (length st1) = int (length st) + depth_change c" by blast
  from Cons.IH [OF b1] obtain st' where "balanced_from st' ys"
    and "int (length st') = int (length st1) + depth xs" by blast
  with l1 show ?case
    by (intro exI [of _ st']) (simp add: depth_def del: depth_change.simps)
qed

lemma balanced_prefix_depth: "balanced (xs @ ys) \<Longrightarrow> 0 \<le> depth xs"
  using balanced_from_prefix [of "[]" xs ys] by (auto simp: balanced_def)

lemma balanced_before_end:
  assumes "balanced (xs @ c # ys)" and "is_end c"
  shows "0 \<le> depth xs - 1"
proof -
  from balanced_from_prefix [of "[]" xs "c # ys"] assms(1)
  obtain st' where b: "balanced_from st' (c # ys)" and l: "int (length st') = depth xs"
    by (auto simp: balanced_def)
  from b assms(2) have "st' \<noteq> []"
    by (cases c) auto
  then have "0 < int (length st')" by simp
  with l show ?thesis by linarith
qed

lemma sibling_output:
  assumes "completes_element p" and "\<not> is_end c" and "N \<noteq> 0"
  shows "sout_m (run (pre @ [p, c]) (json_writer_init [] N))
     = sout_m (run (pre @ [p]) (json_writer_init [] N)) @ '','' @ [CHR 0x0A] @
         replicate (nat (N * depth (pre @ [p]))) CHR '' '' @ token N c"
proof -
  define w where "w = run (pre @ [p]) (json_writer_init [] N)"
  have st: "sep_status_m w = SepStatus_next"
    unfolding w_def run_status_snoc using assms(1)
    by (simp add: status_after_def completes_element_def)
  have ind: "indent_m w = N"
    by (simp add: w_def run_indent json_writer_init_def)
  have lev: "level_m w = depth (pre @ [p])"
    by (simp add: w_def run_level json_writer_init_def)
  have "run (pre @ [p, c]) (json_writer_init [] N) = exec c w"
    using run_append [of "pre @ [p]" "[c]"] by (simp add: w_def)
  then show ?thesis
    using assms(2,3) st ind lev
    by (simp add: exec_sout prefix_text_def indent_text_def cValueSep_def mult.commute
        w_def [symmetric])
qed

lemma closing_output:
  assumes "is_end c" and "N \<noteq> 0" and "pre \<noteq> []"
  shows "sout_m (run (pre @ [c]) (json_writer_init [] N))
     = sout_m (run pre (json_writer_init [] N)) @
         (if is_name (last pre) then []
          else CHR 0x0A # replicate (nat (N * (depth pre - 1))) CHR '' '') @ token N c"
proof -
  define w where "w = run pre (json_writer_init [] N)"
  have "sep_status_m (run (butlast pre @ [last pre]) (json_writer_init [] N))
      = status_after (last pre)"
    by (rule run_status_snoc)
  then have st: "sep_status_m w = status_after (last pre)"
    using assms(3) by (simp add: w_def)
  have ind: "indent_m w = N"
    by (simp add: w_def run_indent json_writer_init_def)
  have lev: "level_m w = depth pre"
    by (simp add: w_def run_level json_writer_init_def)
  have "run (pre @ [c]) (json_writer_init [] N) = exec c w"
    by (simp add: run_append w_def)
  then show ?thesis
    using assms(1,2) st ind lev
    by (simp add: exec_sout prefix_text_def indent_text_def status_after_none mult.commute
        w_def [symmetric])
qed

text \<open>
  The layout of the output of a new writer with indent width \<open>N > 0\<close> and an empty
  stream, for a balanced sequence of calls none of which writes a raw newline or a raw
  leading space: the leading spaces of every line are \<open>N\<close> times the nesting depth of the
  line's first token, and these depths are not negative; a call that follows a completed
  element (a value or a closed container) and is not an end call, so that it starts the
  next sibling, is separated from it by exactly one comma, which a newline and \<open>N\<close> times
  the depth in spaces follow; an end call writes no comma before its delimiter, only the
  newline and the indentation of the depth outside the container it closes (nothing
  after a name).
\<close>

lemma layout_of_balanced_calls:
  assumes "0 < N" and "balanced cs" and "list_all writes_no_layout_char cs"
  shows
    "map leading_spaces (split_lines (sout_m (run cs (json_writer_init [] N))))
       = map (\<lambda>d. nat (N * d)) (line_depths cs) \<and>
     (\<forall>d \<in> set (line_depths cs). 0 \<le> d) \<and>
     (\<forall>pre p c post. cs = pre @ p # c # post \<and> completes_element p \<and> \<not> is_end c \<longrightarrow>
        0 \<le> depth (pre @ [p]) \<and>
        sout_m (run (pre @ [p, c]) (json_writer_init [] N))
          = sout_m (run (pre @ [p]) (json_writer_init [] N)) @ '','' @ [CHR 0x0A] @
              replicate (nat (N * depth (pre @ [p]))) CHR '' '' @ token N c) \<and>
     (\<forall>pre c post. cs = pre @ c # post \<and> is_end c \<longrightarrow>
        pre \<noteq> [] \<and> 0 \<le> depth pre - 1 \<and>
        sout_m (run (pre @ [c]) (json_writer_init [] N))
          = sout_m (run pre (json_writer_init [] N)) @
              (if is_name (last pre) then []
               else CHR 0x0A # replicate (nat (N * (depth pre - 1))) CHR '' '') @ token N c)"
proof (intro conjI allI impI)
  show "map leading_spaces (split_lines (sout_m (run cs (json_writer_init [] N))))
       = map (\<lambda>d. nat (N * d)) (line_depths cs)"
    using assms(1,3) by (rule init_lines)
next
  show "\<forall>d \<in> set (line_depths cs). 0 \<le> d"
    using balanced_from_line_depths [of "[]" cs True] assms(2)
    by (simp add: line_depths_def balanced_def)
next
  fix pre p c post
  assume h: "cs = pre @ p # c # post \<and> completes_element p \<and> \<not> is_end c"
  then have "balanced ((pre @ [p]) @ c # post)" using assms(2) by simp
  then show "0 \<le> depth (pre @ [p])" by (rule balanced_prefix_depth)
  from h assms(1) show "sout_m (run (pre @ [p, c]) (json_writer_init [] N))
          = sout_m (run (pre @ [p]) (json_writer_init [] N)) @ '','' @ [CHR 0x0A] @
              replicate (nat (N * depth (pre @ [p]))) CHR '' '' @ token N c"
    by (intro sibling_output) simp_all
next
  fix pre c post
  assume h: "cs = pre @ c # post \<and> is_end c"
  with assms(2) have d: "0 \<le> depth pre - 1"
    by (intro balanced_before_end [of pre c post]) simp_all
  then show "0 \<le> depth pre - 1" .
  from d show ne: "pre \<noteq> []" by (auto simp: depth_def)
  from h assms(1) ne show "sout_m (run (pre @ [c]) (json_writer_init [] N))
          = sout_m (run pre (json_writer_init [] N)) @
              (if is_name (last pre) then []
               else CHR 0x0A # replicate (nat (N * (depth pre - 1))) CHR '' '') @ token N c"
    by (intro closing_output) simp_all
qed

lemma layout_of_balanced_calls_example:
  "(0::int) < 2 \<and> balanced [ArrayStart, ValueInt 1, ValueInt 2, ArrayEnd] \<and>
   map leading_spaces (split_lines (sout_m
     (run [ArrayStart, ValueInt 1, ValueInt 2, ArrayEnd] (json_writer_init [] 2))))
     = [0, 2, 2, 0] \<and>
   ([ArrayStart, ValueInt 1, ValueInt 2, ArrayEnd] = [ArrayStart] @ ValueInt 1 # ValueInt 2 # [ArrayEnd] \<and>
    completes_element (ValueInt 1) \<and> \<not> is_end (ValueInt 2)) \<and>
   sout_m (run [ArrayStart, ValueInt 1, ValueInt 2] (json_writer_init [] 2))
     = sout_m (run [ArrayStart, ValueInt 1] (json_writer_init [] 2)) @ '','' @ [CHR 0x0A] @ ''  2'' \<and>
   ([ArrayStart, ValueInt 1, ValueInt 2, ArrayEnd] = [ArrayStart, ValueInt 1, ValueInt 2] @ ArrayEnd # [] \<and>
    is_end ArrayEnd) \<and>
   sout_m (run [ArrayStart, ValueInt 1, ValueInt 2, ArrayEnd] (json_writer_init [] 2))
     = sout_m (run [ArrayStart, ValueInt 1, ValueInt 2] (json_writer_init [] 2)) @ [CHR 0x0A] @ '']''"
proof -
  have pos: "(0::int) < 2" by simp
  have bal: "balanced [ArrayStart, ValueInt 1, ValueInt 2, ArrayEnd]"
    by (simp add: balanced_def)
  have safe: "list_all writes_no_layout_char [ArrayStart, ValueInt 1, ValueInt 2, ArrayEnd]"
    by simp
  note layout = layout_of_balanced_calls [OF pos bal safe]
  have lines: "map leading_spaces (split_lines (sout_m
     (run [ArrayStart, ValueInt 1, ValueInt 2, ArrayEnd] (json_writer_init [] 2))))
     = [0, 2, 2, 0]"
    using layout [THEN conjunct1] by (simp add: line_depths_def)
  have h2: "[ArrayStart, ValueInt 1, ValueInt 2, ArrayEnd]
      = [ArrayStart] @ ValueInt 1 # ValueInt 2 # [ArrayEnd] \<and>
    completes_element (ValueInt 1) \<and> \<not> is_end (ValueInt 2)"
    by (simp add: completes_element_def)
  have sib: "sout_m (run [ArrayStart, ValueInt 1, ValueInt 2] (json_writer_init [] 2))
     = sout_m (run [ArrayStart, ValueInt 1] (json_writer_init [] 2)) @ '','' @ [CHR 0x0A] @ ''  2''"
    using layout [THEN conjunct2, THEN conjunct2, THEN conjunct1, rule_format, OF h2]
    by (simp add: depth_def ostream_int_def dec_digits.simps numeral_2_eq_2)
  have h3: "[ArrayStart, ValueInt 1, ValueInt 2, ArrayEnd]
      = [ArrayStart, ValueInt 1, ValueInt 2] @ ArrayEnd # [] \<and> is_end ArrayEnd"
    by simp
  have close: "sout_m (run [ArrayStart, ValueInt 1, ValueInt 2, ArrayEnd] (json_writer_init [] 2))
     = sout_m (run [ArrayStart, ValueInt 1, ValueInt 2] (json_writer_init [] 2)) @ [CHR 0x0A] @ '']''"
    using layout [THEN conjunct2, THEN conjunct2, THEN conjunct2, rule_format, OF h3]
    by (simp add: depth_def cArrEnd_def)
  from pos bal lines h2 sib h3 close show ?thesis by blast
qed

text \<open>
  Claim C6 says this of every balanced sequence of calls. The template \<^verbatim>\<open>value(T n)\<close>
  does not keep it at a character type: \<^verbatim>\<open>value(' ')\<close> in an array, with indent width 2,
  writes the space itself, so the second line of the output starts with three spaces
  where twice the depth is two. At \<^verbatim>\<open>int\<close> the same value, 32, is written as a number
  and the line starts with two spaces.
\<close>

theorem value_char_space_layout:
  "balanced [ArrayStart, ValueChar CHR '' '', ArrayEnd] \<and>
   sout_m (run [ArrayStart, ValueChar CHR '' '', ArrayEnd] (json_writer_init [] 2))
     = ''['' @ [CHR 0x0A] @ ''   '' @ [CHR 0x0A] @ '']'' \<and>
   map leading_spaces (split_lines (sout_m
     (run [ArrayStart, ValueChar CHR '' '', ArrayEnd] (json_writer_init [] 2)))) = [0, 3, 0] \<and>
   map (\<lambda>d. nat (2 * d)) (line_depths [ArrayStart, ValueChar CHR '' '', ArrayEnd]) = [0, 2, 0] \<and>
   sout_m (run [ArrayStart, ValueInt 32, ArrayEnd] (json_writer_init [] 2))
     = ''['' @ [CHR 0x0A] @ ''  32'' @ [CHR 0x0A] @ '']'' \<and>
   map leading_spaces (split_lines (sout_m
     (run [ArrayStart, ValueInt 32, ArrayEnd] (json_writer_init [] 2)))) = [0, 2, 0]"
  by code_simp

end
